theory Spec2Isabelle
  imports Main "HOL-Library.Word"
begin

section \<open>Strings\<close>

text \<open>
  A JavaScript string is a sequence of 16-bit UTF-16 code units. The literals of the
  source are ASCII, so \<open>of_ascii\<close> turns an HOL string literal into such a sequence.
\<close>

type_synonym jchar = "16 word"

type_synonym jstring = "jchar list"

definition of_ascii :: "string \<Rightarrow> jstring" where
  "of_ascii s = map (\<lambda>c. of_char c) s"

text \<open>
  The character class \<open>\s\<close> of a regular expression without the unicode flag: the
  WhiteSpace and LineTerminator code units of ECMAScript.
\<close>

definition isWhiteSpace :: "jchar \<Rightarrow> bool" where
  "isWhiteSpace c \<longleftrightarrow>
     c = 0x0009 \<or> c = 0x000A \<or> c = 0x000B \<or> c = 0x000C \<or> c = 0x000D \<or> c = 0x0020 \<or>
     c = 0x00A0 \<or> c = 0x1680 \<or> (0x2000 \<le> c \<and> c \<le> 0x200A) \<or>
     c = 0x2028 \<or> c = 0x2029 \<or> c = 0x202F \<or> c = 0x205F \<or> c = 0x3000 \<or> c = 0xFEFF"

definition SP :: jchar where
  "SP = 0x0020"

definition NL :: jchar where
  "NL = 0x000A"

text \<open>
  \<^verbatim>\<open>text.split(/\s+/)\<close>. The split algorithm of ECMAScript walks the string with the
  start \<open>p\<close> of the current piece and a position \<open>q\<close>; \<open>splitter cur s\<close> is that walk
  with \<open>cur\<close> the piece between \<open>p\<close> and \<open>q\<close> and \<open>s\<close> the rest from \<open>q\<close>. Where the
  pattern matches at \<open>q\<close> (a white space character; the greedy \<open>\s+\<close> takes the whole run)
  the piece is pushed and the walk goes on behind the run; at the end the last piece is
  pushed, also when it is empty. The empty string has the one piece \<open>""\<close>, since the
  pattern does not match the empty string.
\<close>

function splitter :: "jstring \<Rightarrow> jstring \<Rightarrow> jstring list" where
  "splitter cur [] = [cur]"
| "splitter cur (c # cs) =
     (if isWhiteSpace c then cur # splitter [] (dropWhile isWhiteSpace cs)
      else splitter (cur @ [c]) cs)"
  by pat_completeness auto
termination
  by (relation "measure (\<lambda>(cur, s). length s)")
     (auto simp: length_dropWhile_le less_Suc_eq_le)

definition split_ws :: "jstring \<Rightarrow> jstring list" where
  "split_ws text = splitter [] text"

text \<open>\<^verbatim>\<open>Array.prototype.join(sep)\<close> on an array of strings.\<close>

fun join :: "jstring \<Rightarrow> jstring list \<Rightarrow> jstring" where
  "join sep [] = []"
| "join sep [w] = w"
| "join sep (w # v # ws) = w @ sep @ join sep (v # ws)"

section \<open>The chunker\<close>

text \<open>
  \<^verbatim>\<open>chunkText(text, maxTokens)\<close> of \<^verbatim>\<open>process-file/index.ts\<close>. The loop over the words
  carries \<open>chunks\<close> and \<open>currentChunk\<close>; \<open>maxTokens\<close> is a word count (the one call passes
  500), a natural number here.
\<close>

fun chunk_loop :: "nat \<Rightarrow> jstring list \<Rightarrow> jstring list \<Rightarrow> jstring list
                   \<Rightarrow> jstring list \<times> jstring list" where
  "chunk_loop maxTokens [] chunks currentChunk = (chunks, currentChunk)"
| "chunk_loop maxTokens (word # words) chunks currentChunk =
     (let pushed = currentChunk @ [word] in
      if length pushed \<ge> maxTokens
      then chunk_loop maxTokens words (chunks @ [join [SP] pushed]) []
      else chunk_loop maxTokens words chunks pushed)"

definition chunkText :: "jstring \<Rightarrow> nat \<Rightarrow> jstring list" where
  "chunkText text maxTokens =
     (let words = split_ws text;
          (chunks, currentChunk) = chunk_loop maxTokens words [] []
      in if length currentChunk > 0 then chunks @ [join [SP] currentChunk] else chunks)"

text \<open>
  The same loop before the words of a chunk are joined: \<open>chunk_groups\<close> gives the word
  list of every chunk. It is \<open>chunk_loop\<close> without \<open>join\<close> (lemma \<open>chunkText_groups\<close>), and
  is what the statements about the words of a chunk are made of.
\<close>

fun group_loop :: "nat \<Rightarrow> 'a list \<Rightarrow> 'a list list \<Rightarrow> 'a list \<Rightarrow> 'a list list \<times> 'a list" where
  "group_loop maxTokens [] groups current = (groups, current)"
| "group_loop maxTokens (word # words) groups current =
     (let pushed = current @ [word] in
      if length pushed \<ge> maxTokens
      then group_loop maxTokens words (groups @ [pushed]) []
      else group_loop maxTokens words groups pushed)"

definition chunk_groups :: "nat \<Rightarrow> 'a list \<Rightarrow> 'a list list" where
  "chunk_groups maxTokens words =
     (let (groups, current) = group_loop maxTokens words [] []
      in if length current > 0 then groups @ [current] else groups)"

text \<open>
  The words of a text in the everyday sense: the pieces of the split that are not empty.
  The split itself also yields an empty piece before leading and after trailing white
  space.
\<close>

definition words_of :: "jstring \<Rightarrow> jstring list" where
  "words_of text = filter (\<lambda>w. w \<noteq> []) (split_ws text)"

section \<open>The document store and the collaborators\<close>

text \<open>
  The two tables the functions write and read. A row of \<open>documents\<close> carries the columns
  the insert sets, the identifier the database generates and the creation time it
  stamps; a row of \<open>embeddings\<close> carries the inserted columns, with the \<open>chunk_index\<close>
  of its metadata. The type \<open>'v\<close> is that of an embedding vector. The list of a table
  is in the order in which a query without an ordering returns its rows.
\<close>

record document =
  doc_id :: nat
  doc_name :: jstring
  doc_type :: jstring
  doc_content :: jstring
  doc_originalUrl :: jstring
  created_at :: nat

record 'v embedding_row =
  document_id :: nat
  content :: jstring
  embedding :: 'v
  chunk_index :: nat

text \<open>The calls a run makes to the storage bucket, the tables and the model API.\<close>

datatype 'v call =
    StorageDownload jstring
  | InsertDocument jstring jstring jstring jstring
  | EmbedContent jstring
  | InsertEmbeddings "'v embedding_row list"
  | MatchDocuments 'v
  | SelectDocuments nat
  | GenerateContent jstring

record 'v world =
  documents :: "document list"
  embeddings :: "'v embedding_row list"
  calls :: "'v call list"

text \<open>
  What one call of the embedding endpoint can do: \<open>Throws\<close> is a rejected \<^verbatim>\<open>fetch\<close> or
  a body that is not JSON, \<open>NotOk\<close> a response whose \<^verbatim>\<open>ok\<close> is false, \<open>Ok v\<close> a
  response with \<^verbatim>\<open>embedding?.values\<close> equal to \<open>v\<close> (\<open>None\<close> when \<^verbatim>\<open>if (vector)\<close>
  does not hold).
\<close>

datatype 'v embed_outcome = Throws jstring | NotOk | Ok "'v option"

fun embed_vector :: "'v embed_outcome \<Rightarrow> 'v option" where
  "embed_vector (Throws m) = None"
| "embed_vector NotOk = None"
| "embed_vector (Ok v) = v"

section \<open>Ingestion: the process-file function\<close>

text \<open>
  The request: \<open>method_is_options\<close> is \<^verbatim>\<open>req.method === 'OPTIONS'\<close>; \<open>parsed\<close> is the
  destructured body of \<^verbatim>\<open>await req.json()\<close>, or the message of the exception that
  \<^verbatim>\<open>createClient\<close> or \<^verbatim>\<open>req.json()\<close> throws.
\<close>

record file_body =
  fileName :: jstring
  fileUrl :: jstring
  fileType :: jstring

record file_request =
  method_is_options :: bool
  parsed :: "jstring + file_body"

text \<open>
  The collaborators of one run. \<open>download url\<close> is the outcome of the storage download:
  the message of \<open>downloadError\<close>, or what \<^verbatim>\<open>fileData.text()\<close> gives for the blob.
  \<open>document_insert\<close> is the outcome of the insert into \<open>documents\<close>: the message of
  \<open>docError\<close>, or the generated identifier and creation time of the new row.
  \<open>embedContent i chunk\<close> is the outcome of the \<open>i\<close>-th call of the embedding endpoint
  of the run, made for \<open>chunk\<close>. \<open>embeddings_insert rows\<close> is the message of
  \<open>embeddingError\<close> if the batch insert fails. The batch insert is one statement of the
  database: it stores all rows or none.
\<close>

record 'v file_env =
  download :: "jstring \<Rightarrow> jstring + jstring"
  document_insert :: "jstring + nat \<times> nat"
  GEMINI_API_KEY :: "jstring option"
  embedContent :: "nat \<Rightarrow> jstring \<Rightarrow> 'v embed_outcome"
  embeddings_insert :: "'v embedding_row list \<Rightarrow> jstring option"

datatype file_error =
    Thrown jstring
  | DownloadFailed jstring
  | StoreDocumentFailed jstring
  | ApiKeyMissing
  | StoreEmbeddingsFailed jstring

fun error_message :: "file_error \<Rightarrow> jstring" where
  "error_message (Thrown m) = m"
| "error_message (DownloadFailed m) = of_ascii ''Failed to download file: '' @ m"
| "error_message (StoreDocumentFailed m) = of_ascii ''Failed to store document: '' @ m"
| "error_message ApiKeyMissing = of_ascii ''Gemini API key not configured''"
| "error_message (StoreEmbeddingsFailed m) = of_ascii ''Failed to store embeddings: '' @ m"

text \<open>
  The response: the empty reply to a preflight request, the success body with
  \<open>documentId\<close> and \<open>chunksProcessed\<close>, or the error body with status 500.
\<close>

datatype file_response =
    Preflight
  | Success nat nat
  | Failure file_error

text \<open>Extract text based on file type. Without a branch for the type, \<open>text\<close> stays \<open>''\<close>.\<close>

definition extract_text :: "jstring \<Rightarrow> jstring \<Rightarrow> jstring" where
  "extract_text ftype fileData =
     (if ftype = of_ascii ''text/csv'' \<or> ftype = of_ascii ''application/vnd.ms-excel''
      then fileData
      else if ftype = of_ascii ''application/pdf''
      then fileData
      else [])"

text \<open>
  The loop over the chunks. \<open>i\<close> counts the calls of the endpoint; a chunk whose call
  throws, is not ok or has no vector adds nothing; otherwise a record is pushed whose
  \<open>chunk_index\<close> is \<open>embeddings.length\<close> before the push.
\<close>

fun embed_loop :: "(nat \<Rightarrow> jstring \<Rightarrow> 'v embed_outcome) \<Rightarrow> nat \<Rightarrow> nat \<Rightarrow> jstring list
                   \<Rightarrow> 'v embedding_row list \<Rightarrow> 'v embedding_row list" where
  "embed_loop api docid i [] embs = embs"
| "embed_loop api docid i (chunk # chunks) embs =
     (case api i chunk of
        Throws m \<Rightarrow> embed_loop api docid (Suc i) chunks embs
      | NotOk \<Rightarrow> embed_loop api docid (Suc i) chunks embs
      | Ok None \<Rightarrow> embed_loop api docid (Suc i) chunks embs
      | Ok (Some vector) \<Rightarrow>
          embed_loop api docid (Suc i) chunks
            (embs @ [\<lparr>document_id = docid, content = chunk, embedding = vector,
                      chunk_index = length embs\<rparr>]))"

text \<open>Store embeddings: only a batch that is not empty is inserted.\<close>

definition store_embeddings :: "'v file_env \<Rightarrow> nat \<Rightarrow> 'v embedding_row list \<Rightarrow> 'v world
                                \<Rightarrow> file_response \<times> 'v world" where
  "store_embeddings env docid embs w =
     (if length embs > 0
      then (let w' = w\<lparr>calls := calls w @ [InsertEmbeddings embs]\<rparr> in
            case embeddings_insert env embs of
              Some m \<Rightarrow> (Failure (StoreEmbeddingsFailed m), w')
            | None \<Rightarrow> (Success docid (length embs), w'\<lparr>embeddings := embeddings w' @ embs\<rparr>))
      else (Success docid (length embs), w))"

text \<open>Chunk the text and generate the embeddings; the key is looked up after chunking.\<close>

definition embed_document :: "'v file_env \<Rightarrow> nat \<Rightarrow> jstring \<Rightarrow> 'v world
                              \<Rightarrow> file_response \<times> 'v world" where
  "embed_document env docid text w =
     (let chunks = chunkText text 500 in
      if GEMINI_API_KEY env = None \<or> GEMINI_API_KEY env = Some []
      then (Failure ApiKeyMissing, w)
      else (let embs = embed_loop (embedContent env) docid 0 chunks [];
                w' = w\<lparr>calls := calls w @ map EmbedContent chunks\<rparr>
            in store_embeddings env docid embs w'))"

text \<open>Store the document, then go on with its text.\<close>

definition store_document :: "'v file_env \<Rightarrow> file_body \<Rightarrow> jstring \<Rightarrow> 'v world
                              \<Rightarrow> file_response \<times> 'v world" where
  "store_document env b text w =
     (let w' = w\<lparr>calls := calls w @ [InsertDocument (fileName b) (fileType b) text (fileUrl b)]\<rparr> in
      case document_insert env of
        Inl m \<Rightarrow> (Failure (StoreDocumentFailed m), w')
      | Inr (docid, now) \<Rightarrow>
          embed_document env docid text
            (w'\<lparr>documents := documents w' @
                   [\<lparr>doc_id = docid, doc_name = fileName b, doc_type = fileType b,
                     doc_content = text, doc_originalUrl = fileUrl b, created_at = now\<rparr>]\<rparr>))"

text \<open>The handler: every exception ends in the error response of the \<^verbatim>\<open>catch\<close> block.\<close>

definition process_file :: "'v file_env \<Rightarrow> file_request \<Rightarrow> 'v world \<Rightarrow> file_response \<times> 'v world" where
  "process_file env req w =
     (if method_is_options req then (Preflight, w)
      else case parsed req of
        Inl m \<Rightarrow> (Failure (Thrown m), w)
      | Inr b \<Rightarrow>
          (let w' = w\<lparr>calls := calls w @ [StorageDownload (fileUrl b)]\<rparr> in
           case download env (fileUrl b) of
             Inl m \<Rightarrow> (Failure (DownloadFailed m), w')
           | Inr fileData \<Rightarrow> store_document env b (extract_text (fileType b) fileData) w'))"

section \<open>Retrieval: the query-rag function\<close>

text \<open>
  The request, as for ingestion: \<open>q_parsed\<close> is the \<open>question\<close> of the body, or the
  message of the exception thrown before it is read.
\<close>

record query_request =
  q_method_is_options :: bool
  q_parsed :: "jstring + jstring"

text \<open>
  What the generation endpoint can do: \<open>GenOk t\<close> is an ok response with
  \<^verbatim>\<open>candidates?.[0]?.content?.parts?.[0]?.text\<close> equal to \<open>t\<close> (\<open>None\<close> when a link of the
  chain is absent).
\<close>

datatype gen_outcome = GenThrows jstring | GenNotOk | GenOk "jstring option"

text \<open>
  The collaborators of one query. \<open>match_documents v\<close> is the outcome of the remote
  procedure call: the message of \<open>searchError\<close>, or \<open>similarChunks\<close> as the contents of
  the matched rows (\<open>None\<close> for \<^verbatim>\<open>null\<close>). \<open>select_documents_fails\<close> says that the
  fallback query on \<open>documents\<close> returns no data.
\<close>

record 'v query_env =
  q_GEMINI_API_KEY :: "jstring option"
  embed_question :: "jstring \<Rightarrow> 'v embed_outcome"
  match_documents :: "'v \<Rightarrow> jstring + jstring list option"
  select_documents_fails :: bool
  generateContent :: "jstring \<Rightarrow> gen_outcome"

datatype query_error =
    QThrown jstring
  | QApiKeyMissing
  | QuestionEmbeddingFailed
  | NoQuestionEmbedding
  | GenerationFailed

fun query_error_message :: "query_error \<Rightarrow> jstring" where
  "query_error_message (QThrown m) = m"
| "query_error_message QApiKeyMissing = of_ascii ''Gemini API key not configured''"
| "query_error_message QuestionEmbeddingFailed = of_ascii ''Failed to generate question embedding''"
| "query_error_message NoQuestionEmbedding = of_ascii ''No embedding generated for question''"
| "query_error_message GenerationFailed = of_ascii ''Failed to generate response from Gemini''"

datatype query_response =
    QPreflight
  | Answer jstring
  | QFailure query_error

text \<open>
  \<^verbatim>\<open>supabase.from('documents').select('content').limit(n)\<close>: the query names no
  ordering, so it returns the contents of the first \<open>n\<close> rows in the order of the table.
\<close>

definition select_content_limit :: "nat \<Rightarrow> 'v world \<Rightarrow> jstring list" where
  "select_content_limit n w = map doc_content (take n (documents w))"

text \<open>
  The context: with a search error, the contents of the fallback query, joined by an
  empty line; with a search result that is not empty, the contents of the chunks; the
  empty string otherwise.
\<close>

definition fallback_context :: "jstring list option \<Rightarrow> jstring" where
  "fallback_context docs =
     (case docs of
        None \<Rightarrow> []
      | Some ds \<Rightarrow> if length ds > 0 then join [NL, NL] ds else [])"

definition relevant_context :: "'v query_env \<Rightarrow> jstring + jstring list option \<Rightarrow> 'v world \<Rightarrow> jstring" where
  "relevant_context env search w =
     (case search of
        Inl searchError \<Rightarrow>
          fallback_context
            (if select_documents_fails env then None else Some (select_content_limit 3 w))
      | Inr None \<Rightarrow> []
      | Inr (Some similarChunks) \<Rightarrow>
          if length similarChunks > 0 then join [NL, NL] similarChunks else [])"

definition build_prompt :: "jstring \<Rightarrow> jstring \<Rightarrow> jstring" where
  "build_prompt relevantContext question =
     of_ascii ''Based on the following context about Hero-Vida data, please answer the user''
     @ [0x0027] @ of_ascii ''s question. If the information is not available in the context, please say so clearly.''
     @ [NL, NL] @ of_ascii ''Context:'' @ [NL] @ relevantContext
     @ [NL, NL] @ of_ascii ''Question: '' @ question
     @ [NL, NL] @ of_ascii ''Please provide a detailed and accurate answer based only on the information provided in the context.''"

text \<open>Generate the response; a missing or empty answer text becomes the fixed apology.\<close>

definition generate_answer :: "'v query_env \<Rightarrow> jstring \<Rightarrow> query_response" where
  "generate_answer env prompt =
     (case generateContent env prompt of
        GenThrows m \<Rightarrow> QFailure (QThrown m)
      | GenNotOk \<Rightarrow> QFailure GenerationFailed
      | GenOk None \<Rightarrow> Answer (of_ascii ''Sorry, I could not generate a response.'')
      | GenOk (Some t) \<Rightarrow>
          Answer (if t = [] then of_ascii ''Sorry, I could not generate a response.'' else t))"

text \<open>Search, with the fallback, and answer from the context.\<close>

definition search_and_answer :: "'v query_env \<Rightarrow> jstring \<Rightarrow> 'v \<Rightarrow> 'v world
                                 \<Rightarrow> query_response \<times> 'v world" where
  "search_and_answer env question questionVector w =
     (let search = match_documents env questionVector;
          w1 = w\<lparr>calls := calls w @ [MatchDocuments questionVector]\<rparr>;
          w2 = (case search of
                  Inl searchError \<Rightarrow> w1\<lparr>calls := calls w1 @ [SelectDocuments 3]\<rparr>
                | Inr similarChunks \<Rightarrow> w1);
          prompt = build_prompt (relevant_context env search w) question
      in (generate_answer env prompt, w2\<lparr>calls := calls w2 @ [GenerateContent prompt]\<rparr>))"

definition query_rag :: "'v query_env \<Rightarrow> query_request \<Rightarrow> 'v world \<Rightarrow> query_response \<times> 'v world" where
  "query_rag env req w =
     (if q_method_is_options req then (QPreflight, w)
      else case q_parsed req of
        Inl m \<Rightarrow> (QFailure (QThrown m), w)
      | Inr question \<Rightarrow>
          if q_GEMINI_API_KEY env = None \<or> q_GEMINI_API_KEY env = Some []
          then (QFailure QApiKeyMissing, w)
          else (let w' = w\<lparr>calls := calls w @ [EmbedContent question]\<rparr> in
                case embed_question env question of
                  Throws m \<Rightarrow> (QFailure (QThrown m), w')
                | NotOk \<Rightarrow> (QFailure QuestionEmbeddingFailed, w')
                | Ok None \<Rightarrow> (QFailure NoQuestionEmbedding, w')
                | Ok (Some questionVector) \<Rightarrow> search_and_answer env question questionVector w'))"

text \<open>
  The fallback as the specification words it: the contents of the most recently created
  documents, up to \<open>limit\<close>, the newest first.
\<close>

definition spec_recent_documents :: "nat \<Rightarrow> document list \<Rightarrow> jstring list" where
  "spec_recent_documents limit docs = map doc_content (take limit (rev (sort_key created_at docs)))"

section \<open>Sample runs\<close>

text \<open>
  Concrete requests, collaborators and stores at which the statements below are
  evaluated. The vector of an embedding is a list of numbers here; \<open>text1200\<close> is a
  text of 1200 words, each separated from the next by one space.
\<close>

definition text1200 :: jstring where
  "text1200 = concat (replicate 1199 (of_ascii ''w '')) @ of_ascii ''w''"

definition text1000_trailing :: jstring where
  "text1000_trailing = concat (replicate 1000 (of_ascii ''w ''))"

definition sample_body :: "jstring \<Rightarrow> file_body" where
  "sample_body ftype =
     \<lparr>fileName = of_ascii ''data'', fileUrl = of_ascii ''1-data'', fileType = ftype\<rparr>"

definition sample_request :: "jstring \<Rightarrow> file_request" where
  "sample_request ftype = \<lparr>method_is_options = False, parsed = Inr (sample_body ftype)\<rparr>"

definition embeds_all :: "nat \<Rightarrow> bool" where
  "embeds_all i = True"

definition embeds_none :: "nat \<Rightarrow> bool" where
  "embeds_none i = False"

definition second_fails :: "nat \<Rightarrow> bool" where
  "second_fails i = (i \<noteq> 1)"

definition sample_env :: "jstring \<Rightarrow> (nat \<Rightarrow> bool) \<Rightarrow> bool \<Rightarrow> nat list file_env" where
  "sample_env blob embeds insert_ok =
     \<lparr>download = (\<lambda>url. Inr blob),
      document_insert = Inr (7, 100),
      GEMINI_API_KEY = Some (of_ascii ''key''),
      embedContent = (\<lambda>i chunk. if embeds i then Ok (Some [i]) else NotOk),
      embeddings_insert = (\<lambda>rows. if insert_ok then None else Some (of_ascii ''insert failed''))\<rparr>"

definition empty_world :: "nat list world" where
  "empty_world = \<lparr>documents = [], embeddings = [], calls = []\<rparr>"

definition chunks3 :: "jstring list" where
  "chunks3 = [of_ascii ''a'', of_ascii ''b'', of_ascii ''c'']"

definition pdf_blob :: jstring where
  "pdf_blob = of_ascii ''%PDF-1.4 obj''"

definition four_documents :: "nat list world" where
  "four_documents =
     \<lparr>documents =
        [\<lparr>doc_id = 1, doc_name = of_ascii ''a'', doc_type = of_ascii ''text/csv'',
          doc_content = of_ascii ''first'', doc_originalUrl = of_ascii ''1-a'', created_at = 10\<rparr>,
         \<lparr>doc_id = 2, doc_name = of_ascii ''b'', doc_type = of_ascii ''text/csv'',
          doc_content = of_ascii ''second'', doc_originalUrl = of_ascii ''2-b'', created_at = 20\<rparr>,
         \<lparr>doc_id = 3, doc_name = of_ascii ''c'', doc_type = of_ascii ''text/csv'',
          doc_content = of_ascii ''third'', doc_originalUrl = of_ascii ''3-c'', created_at = 30\<rparr>,
         \<lparr>doc_id = 4, doc_name = of_ascii ''d'', doc_type = of_ascii ''text/csv'',
          doc_content = of_ascii ''fourth'', doc_originalUrl = of_ascii ''4-d'', created_at = 40\<rparr>],
      embeddings = [], calls = []\<rparr>"

definition search_down_env :: "nat list query_env" where
  "search_down_env =
     \<lparr>q_GEMINI_API_KEY = Some (of_ascii ''key''),
      embed_question = (\<lambda>question. Ok (Some [0])),
      match_documents = (\<lambda>v. Inl (of_ascii ''function not found'')),
      select_documents_fails = False,
      generateContent = (\<lambda>prompt. GenOk (Some prompt))\<rparr>"

definition sample_question :: query_request where
  "sample_question = \<lparr>q_method_is_options = False, q_parsed = Inr (of_ascii ''why'')\<rparr>"

text \<open>
  The errors of a run that are raised after the document row was inserted.
\<close>

fun after_document_insert :: "file_error \<Rightarrow> bool" where
  "after_document_insert ApiKeyMissing = True"
| "after_document_insert (StoreEmbeddingsFailed m) = True"
| "after_document_insert e = False"

section \<open>Properties of the split\<close>

lemma isWhiteSpace_SP: "isWhiteSpace SP"
  by (simp add: isWhiteSpace_def SP_def)

lemma splitter_not_Nil: "splitter cur s \<noteq> []"
  by (induction cur s rule: splitter.induct) auto

text \<open>
  No piece of the split holds a white space character, and only the first and the last
  piece can be empty.
\<close>

lemma splitter_no_ws:
  "\<forall>c\<in>set cur. \<not> isWhiteSpace c \<Longrightarrow> \<forall>t\<in>set (splitter cur s). \<forall>c\<in>set t. \<not> isWhiteSpace c"
proof (induction cur s rule: splitter.induct)
  case (1 cur)
  then show ?case by simp
next
  case (2 cur c cs)
  show ?case
  proof (cases "isWhiteSpace c")
    case True
    from "2.IH"(1) [OF True]
    have "\<forall>t\<in>set (splitter [] (dropWhile isWhiteSpace cs)). \<forall>c\<in>set t. \<not> isWhiteSpace c"
      by simp
    with True "2.prems" show ?thesis by simp
  next
    case False
    with "2.prems" have "\<forall>c\<in>set (cur @ [c]). \<not> isWhiteSpace c" by simp
    from "2.IH"(2) [OF False this] False show ?thesis by simp
  qed
qed

lemma split_ws_no_ws: "\<forall>t\<in>set (split_ws s). \<forall>c\<in>set t. \<not> isWhiteSpace c"
  using splitter_no_ws [of "[]" s] by (simp add: split_ws_def)

lemma splitter_inner:
  "cur \<noteq> [] \<or> s = [] \<or> \<not> isWhiteSpace (hd s) \<Longrightarrow> \<forall>t\<in>set (butlast (splitter cur s)). t \<noteq> []"
proof (induction cur s rule: splitter.induct)
  case (1 cur)
  show ?case by simp
next
  case (2 cur c cs)
  show ?case
  proof (cases "isWhiteSpace c")
    case True
    with "2.prems" have cur: "cur \<noteq> []" by simp
    have "dropWhile isWhiteSpace cs = [] \<or> \<not> isWhiteSpace (hd (dropWhile isWhiteSpace cs))"
      using hd_dropWhile [of isWhiteSpace cs] by blast
    then have "\<forall>t\<in>set (butlast (splitter [] (dropWhile isWhiteSpace cs))). t \<noteq> []"
      using "2.IH"(1) [OF True] by blast
    with cur True show ?thesis by (simp add: splitter_not_Nil)
  next
    case False
    with "2.IH"(2) [OF False] show ?thesis by simp
  qed
qed

lemma split_ws_inner: "\<forall>t\<in>set (butlast (tl (split_ws s))). t \<noteq> []"
proof (cases s)
  case Nil
  then show ?thesis by (simp add: split_ws_def)
next
  case (Cons c cs)
  show ?thesis
  proof (cases "isWhiteSpace c")
    case True
    have "dropWhile isWhiteSpace cs = [] \<or> \<not> isWhiteSpace (hd (dropWhile isWhiteSpace cs))"
      using hd_dropWhile [of isWhiteSpace cs] by blast
    from splitter_inner [of "[]", OF disjI2, OF this] Cons True
    show ?thesis by (simp add: split_ws_def)
  next
    case False
    have "\<forall>t\<in>set (butlast (splitter [c] cs)). t \<noteq> []"
      by (rule splitter_inner) simp
    then have "\<forall>t\<in>set (butlast (tl (splitter [c] cs))). t \<noteq> []"
      by (metis butlast_tl list.sel(2) list.set_sel(2))
    with Cons False show ?thesis by (simp add: split_ws_def)
  qed
qed

text \<open>
  Joining pieces with one space and splitting again gives the pieces back.
\<close>

lemma splitter_append_no_ws:
  "\<forall>c\<in>set t. \<not> isWhiteSpace c \<Longrightarrow> splitter cur (t @ s) = splitter (cur @ t) s"
  by (induction t arbitrary: cur) simp_all

lemma dropWhile_join:
  assumes "\<forall>t\<in>set g. \<forall>c\<in>set t. \<not> isWhiteSpace c" and "\<forall>u\<in>set (butlast g). u \<noteq> []"
  shows "dropWhile isWhiteSpace (join [SP] g) = join [SP] g"
proof (cases g)
  case Nil
  then show ?thesis by simp
next
  case (Cons t g')
  show ?thesis
  proof (cases g')
    case Nil
    with Cons assms(1) show ?thesis by (cases t) simp_all
  next
    case (Cons v g'')
    with \<open>g = t # g'\<close> assms show ?thesis by (cases t) simp_all
  qed
qed

lemma splitter_join:
  "\<forall>t\<in>set (t # g). \<forall>c\<in>set t. \<not> isWhiteSpace c \<Longrightarrow> \<forall>u\<in>set (butlast g). u \<noteq> [] \<Longrightarrow>
   splitter cur (join [SP] (t # g)) = (cur @ t) # g"
proof (induction g arbitrary: cur t)
  case Nil
  then show ?case using splitter_append_no_ws [of t cur "[]"] by simp
next
  case (Cons v g)
  have nows: "\<forall>t\<in>set (v # g). \<forall>c\<in>set t. \<not> isWhiteSpace c" using Cons.prems(1) by simp
  have inner: "\<forall>u\<in>set (butlast g). u \<noteq> []"
    using Cons.prems(2) by (auto split: if_splits)
  have dw: "dropWhile isWhiteSpace (join [SP] (v # g)) = join [SP] (v # g)"
    using dropWhile_join [OF nows Cons.prems(2)] .
  have "splitter cur (join [SP] (t # v # g)) = splitter (cur @ t) (SP # join [SP] (v # g))"
    using splitter_append_no_ws [of t cur] Cons.prems(1) by simp
  also have "\<dots> = (cur @ t) # splitter [] (join [SP] (v # g))"
    using dw by (simp add: isWhiteSpace_SP)
  also have "\<dots> = (cur @ t) # v # g"
    using Cons.IH [OF nows inner, of "[]"] by simp
  finally show ?case .
qed

lemma split_ws_join:
  assumes "g \<noteq> []" and "\<forall>t\<in>set g. \<forall>c\<in>set t. \<not> isWhiteSpace c"
      and "\<forall>u\<in>set (butlast (tl g)). u \<noteq> []"
  shows "split_ws (join [SP] g) = g"
proof -
  from assms(1) obtain t g' where g: "g = t # g'" by (cases g) auto
  with assms show ?thesis using splitter_join [of t g' "[]"] by (simp add: split_ws_def)
qed

lemma inner_sublist:
  "set (butlast (tl g)) \<subseteq> set (butlast (tl (A @ g @ B)))"
proof (cases g)
  case Nil
  then show ?thesis by simp
next
  case (Cons x g')
  show ?thesis
  proof (cases g' rule: rev_cases)
    case Nil
    with Cons show ?thesis by simp
  next
    case (snoc m y)
    with Cons show ?thesis by (cases A) (auto simp: butlast_append)
  qed
qed

lemma length_filter_inner:
  assumes "\<forall>u\<in>set (butlast (tl xs)). P u"
  shows "length xs \<le> length (filter P xs) + 2"
proof (cases xs)
  case Nil
  then show ?thesis by simp
next
  case (Cons x ys)
  show ?thesis
  proof (cases ys rule: rev_cases)
    case Nil
    with Cons show ?thesis by simp
  next
    case (snoc m y)
    with Cons assms have "filter P m = m" by simp
    with Cons snoc show ?thesis by simp
  qed
qed

lemma length_split_ws_words:
  "length (words_of s) \<le> length (split_ws s) \<and> length (split_ws s) \<le> length (words_of s) + 2"
  using length_filter_inner [of "split_ws s" "\<lambda>w. w \<noteq> []"] split_ws_inner [of s]
  by (simp add: words_of_def)

section \<open>Properties of the chunker\<close>

text \<open>
  The chunks are the joined groups; the groups partition the words; for a positive
  maximum every group but the last has exactly that many words, and there are
  \<open>\<lceil>N / M\<rceil>\<close> groups for \<open>N\<close> pieces of the split.
\<close>

lemma chunk_loop_groups:
  "chunk_loop M ws (map (join [SP]) gs) cur =
     (map (join [SP]) (fst (group_loop M ws gs cur)), snd (group_loop M ws gs cur))"
proof (induction ws arbitrary: gs cur)
  case Nil
  show ?case by simp
next
  case (Cons w ws)
  show ?case
  proof (cases "M \<le> length (cur @ [w])")
    case True
    have "chunk_loop M (w # ws) (map (join [SP]) gs) cur =
          chunk_loop M ws (map (join [SP]) (gs @ [cur @ [w]])) []"
      using True by simp
    then show ?thesis using True Cons.IH [of "gs @ [cur @ [w]]" "[]"] by (simp add: Let_def)
  next
    case False
    then show ?thesis using Cons.IH [of gs "cur @ [w]"] by (simp add: Let_def)
  qed
qed

lemma chunkText_groups:
  "chunkText s M = map (join [SP]) (chunk_groups M (split_ws s))"
  using chunk_loop_groups [of M "split_ws s" "[]" "[]"]
  by (simp add: chunkText_def chunk_groups_def Let_def split_def)

lemma group_loop_concat:
  "concat (fst (group_loop M ws gs cur)) @ snd (group_loop M ws gs cur) = concat gs @ cur @ ws"
  by (induction ws arbitrary: gs cur) (simp_all add: Let_def)

lemma group_loop_nonempty:
  "\<forall>g\<in>set gs. g \<noteq> [] \<Longrightarrow> \<forall>g\<in>set (fst (group_loop M ws gs cur)). g \<noteq> []"
proof (induction ws arbitrary: gs cur)
  case Nil
  then show ?case by simp
next
  case (Cons w ws)
  from Cons.prems have "\<forall>g\<in>set (gs @ [cur @ [w]]). g \<noteq> []" by simp
  from Cons.IH [OF this] Cons.IH [OF Cons.prems] show ?case by (simp add: Let_def)
qed

lemma concat_chunk_groups: "concat (chunk_groups M ws) = ws"
  using group_loop_concat [of M ws "[]" "[]"]
  by (auto simp: chunk_groups_def split_def Let_def)

lemma chunk_groups_nonempty: "\<forall>g\<in>set (chunk_groups M ws). g \<noteq> []"
  using group_loop_nonempty [of "[]" M ws "[]"]
  by (auto simp: chunk_groups_def split_def Let_def)

lemma group_loop_full:
  "0 < M \<Longrightarrow> length cur < M \<Longrightarrow> \<forall>g\<in>set gs. length g = M \<Longrightarrow>
   (\<forall>g\<in>set (fst (group_loop M ws gs cur)). length g = M) \<and> length (snd (group_loop M ws gs cur)) < M"
proof (induction ws arbitrary: gs cur)
  case Nil
  then show ?case by simp
next
  case (Cons w ws)
  show ?case
  proof (cases "M \<le> length (cur @ [w])")
    case True
    with Cons.prems have "length (cur @ [w]) = M" by simp
    with Cons.prems have "\<forall>g\<in>set (gs @ [cur @ [w]]). length g = M" by simp
    from Cons.IH [OF Cons.prems(1) _ this, of "[]"] Cons.prems(1) True show ?thesis by simp
  next
    case False
    then have "length (cur @ [w]) < M" by simp
    from Cons.IH [OF Cons.prems(1) this Cons.prems(3)] False show ?thesis by simp
  qed
qed

lemma group_loop_count:
  "0 < M \<Longrightarrow> length cur < M \<Longrightarrow>
   length (fst (group_loop M ws gs cur)) = length gs + (length cur + length ws) div M \<and>
   length (snd (group_loop M ws gs cur)) = (length cur + length ws) mod M"
proof (induction ws arbitrary: gs cur)
  case Nil
  then show ?case by simp
next
  case (Cons w ws)
  show ?case
  proof (cases "M \<le> length (cur @ [w])")
    case True
    with Cons.prems have eq: "Suc (length cur) = M" by simp
    have d: "(M + length ws) div M = Suc (length ws div M)"
     and m: "(M + length ws) mod M = length ws mod M"
      using Cons.prems(1) div_add_self1 [of M "length ws"] by simp_all
    have "length cur + length (w # ws) = M + length ws" using eq by simp
    with d m have "(length cur + length (w # ws)) div M = Suc (length ws div M)"
     and "(length cur + length (w # ws)) mod M = length ws mod M"
      by (simp_all only:)
    with Cons.IH [OF Cons.prems(1), of "[]" "gs @ [cur @ [w]]"] Cons.prems(1) True
    show ?thesis by simp
  next
    case False
    then have "length (cur @ [w]) < M" by simp
    from Cons.IH [OF Cons.prems(1) this, of gs] False show ?thesis by simp
  qed
qed

lemma ceil_div:
  assumes "0 < (M::nat)"
  shows "(n + M - 1) div M = n div M + (if n mod M > 0 then 1 else 0)"
proof (cases "n mod M = 0")
  case True
  then have "n + M - 1 = (M - 1) + (n div M) * M"
    using assms div_mult_mod_eq [of n M] by simp
  then have "(n + M - 1) div M = n div M + (M - 1) div M"
    using assms by (simp only: div_mult_self1) 
  then show ?thesis using assms True by simp
next
  case False
  then have "n + M - 1 = (n mod M - 1) + (n div M + 1) * M"
    using assms div_mult_mod_eq [of n M] by simp
  then have "(n + M - 1) div M = (n div M + 1) + (n mod M - 1) div M"
    using assms by (simp only: div_mult_self1)
  moreover have "n mod M - 1 < M" using assms by (simp add: less_imp_diff_less)
  ultimately show ?thesis using False by simp
qed

lemma length_chunk_groups:
  assumes "0 < M"
  shows "length (chunk_groups M ws) = (length ws + M - 1) div M"
proof -
  let ?r = "group_loop M ws [] []"
  from group_loop_count [OF assms, of "[]" ws "[]"] assms
  have a: "length (fst ?r) = length ws div M" and b: "length (snd ?r) = length ws mod M"
    by simp_all
  have "snd ?r \<noteq> [] \<longleftrightarrow> 0 < length ws mod M"
    using b by (metis length_greater_0_conv)
  then have "length (chunk_groups M ws) = length ws div M + (if length ws mod M > 0 then 1 else 0)"
    using a by (simp add: chunk_groups_def split_def Let_def)
  with ceil_div [OF assms, of "length ws"] show ?thesis by simp
qed

lemma length_chunkText:
  "0 < M \<Longrightarrow> length (chunkText s M) = (length (split_ws s) + M - 1) div M"
  by (simp add: chunkText_groups length_chunk_groups)

lemma chunk_groups_shape:
  assumes "0 < M"
  shows "(\<forall>g\<in>set (butlast (chunk_groups M ws)). length g = M) \<and>
         (\<forall>g\<in>set (chunk_groups M ws). 0 < length g \<and> length g \<le> M)"
proof -
  let ?r = "group_loop M ws [] []"
  from group_loop_full [OF assms, of "[]" "[]" ws] assms
  have full: "\<forall>g\<in>set (fst ?r). length g = M" and rest: "length (snd ?r) < M" by simp_all
  show ?thesis
  proof (cases "snd ?r = []")
    case True
    then have "chunk_groups M ws = fst ?r" by (simp add: chunk_groups_def split_def Let_def)
    with full assms show ?thesis by (auto dest: in_set_butlastD)
  next
    case False
    then have "chunk_groups M ws = fst ?r @ [snd ?r]"
      by (simp add: chunk_groups_def split_def Let_def)
    with full rest False assms show ?thesis by auto
  qed
qed

lemma chunkText_empty: "chunkText [] 500 = [[]]"
  by (simp add: chunkText_def split_ws_def)

text \<open>
  The groups are the successive slices of \<open>M\<close> words.
\<close>

lemma group_loop_prepend:
  "group_loop M ws (gs0 @ gs) cur =
     (gs0 @ fst (group_loop M ws gs cur), snd (group_loop M ws gs cur))"
proof (induction ws arbitrary: gs cur)
  case Nil
  show ?case by simp
next
  case (Cons w ws)
  from Cons.IH [of "gs @ [cur @ [w]]" "[]"] Cons.IH [of gs "cur @ [w]"]
  show ?case by (simp add: Let_def)
qed

lemma group_loop_fill:
  "length cur + length xs < M \<Longrightarrow> group_loop M (xs @ ys) gs cur = group_loop M ys gs (cur @ xs)"
proof (induction xs arbitrary: cur)
  case Nil
  show ?case by simp
next
  case (Cons x xs)
  from Cons.prems have "length (cur @ [x]) + length xs < M" by simp
  from Cons.IH [OF this] Cons.prems show ?case by (simp add: Let_def)
qed

lemma chunk_groups_rec:
  assumes "0 < M" and "ws \<noteq> []"
  shows "chunk_groups M ws = take M ws # chunk_groups M (drop M ws)"
proof (cases "length ws < M")
  case True
  from group_loop_fill [of "[]" ws M "[]" "[]"] True
  have "group_loop M ws [] [] = ([], ws)" by simp
  with True assms(2) show ?thesis by (simp add: chunk_groups_def)
next
  case False
  then have len: "length (take M ws) = M" by simp
  with assms(1) have ne: "take M ws \<noteq> []" by auto
  define b where "b = butlast (take M ws)"
  define x where "x = last (take M ws)"
  have tk: "take M ws = b @ [x]" using ne by (simp add: b_def x_def)
  have lb: "length b + 1 = M" using len tk by (metis length_append_singleton Suc_eq_plus1)
  have "ws = b @ x # drop M ws" using tk append_take_drop_id [of M ws] by (metis append.assoc append_Cons append_Nil)
  then have "group_loop M ws [] [] = group_loop M (b @ x # drop M ws) [] []" by simp
  also have "\<dots> = group_loop M (x # drop M ws) [] b"
    using group_loop_fill [of "[]" b M "x # drop M ws" "[]"] lb by simp
  also have "\<dots> = group_loop M (drop M ws) ([take M ws] @ []) []"
    using lb tk by (simp add: Let_def)
  also have "\<dots> = ([take M ws] @ fst (group_loop M (drop M ws) [] []), snd (group_loop M (drop M ws) [] []))"
    by (rule group_loop_prepend)
  finally show ?thesis by (simp add: chunk_groups_def split_def Let_def)
qed

text \<open>
  C2. The number of chunks is \<open>\<lceil>N / M\<rceil>\<close> for the \<open>N\<close> pieces of the split (lemma
  \<open>length_chunkText\<close>), but the empty string has one piece, the empty one: for the empty
  text \<open>chunkText\<close> returns one chunk, the empty string, not an empty sequence.
\<close>

theorem empty_text_gives_one_chunk:
  "chunkText [] 500 = [[]] \<and> length (chunkText [] 500) = 1 \<and> length (words_of []) = 0"
  by (simp add: chunkText_def split_ws_def words_of_def)

lemma splitter_replicate_trailing:
  "\<not> isWhiteSpace c \<Longrightarrow> splitter [] (concat (replicate n [c, SP])) = replicate n [c] @ [[]]"
proof (induction n)
  case 0
  then show ?case by simp
next
  case (Suc n)
  let ?rest = "concat (replicate n [c, SP])"
  have dw: "dropWhile isWhiteSpace ?rest = ?rest" using Suc.prems by (cases n) simp_all
  have "splitter [] (concat (replicate (Suc n) [c, SP])) = splitter [] (c # SP # ?rest)"
    by simp
  also have "\<dots> = [c] # splitter [] (dropWhile isWhiteSpace ?rest)"
    using Suc.prems by (simp add: isWhiteSpace_SP)
  also have "\<dots> = [c] # replicate n [c] @ [[]]"
    using Suc.IH [OF Suc.prems] dw by simp
  finally show ?case by simp
qed

lemma split_ws_text1000_trailing:
  "split_ws text1000_trailing = replicate 1000 (of_ascii ''w'') @ [[]]"
proof -
  have "\<not> isWhiteSpace 119" by (simp add: isWhiteSpace_def)
  from splitter_replicate_trailing [OF this, of 1000] show ?thesis
    by (simp add: text1000_trailing_def split_ws_def of_ascii_def SP_def)
qed

lemma chunk_groups_text1000_trailing:
  "chunk_groups 500 (replicate 1000 w @ [[]]) = [replicate 500 w, replicate 500 w, [[]]]"
proof -
  have a: "chunk_groups 500 (replicate 1000 w @ [[]]) =
           replicate 500 w # chunk_groups 500 (replicate 500 w @ [[]])"
    using chunk_groups_rec [of 500 "replicate 1000 w @ [[]]"] by simp
  have b: "chunk_groups 500 (replicate 500 w @ [[]]) = replicate 500 w # chunk_groups 500 [[]]"
    using chunk_groups_rec [of 500 "replicate 500 w @ [[]]"] by simp
  have c: "chunk_groups 500 [[]] = [[[]]]"
    by (simp add: chunk_groups_def)
  from a b c show ?thesis by simp
qed

text \<open>
  C7. A text that ends in white space has an empty last piece. Where that piece is
  alone in the last group, the final chunk is the empty string although the text is not
  empty: the text of 1000 words, each followed by a space, gives with the maximum 500
  three chunks, the last of them empty; the text \<open>a b \<close> with the maximum 2 gives the
  chunks \<open>a b\<close> and \<open>\<close>.
\<close>

theorem trailing_space_gives_empty_chunk:
  "length (words_of text1000_trailing) = 1000 \<and>
   length (chunkText text1000_trailing 500) = 3 \<and>
   last (chunkText text1000_trailing 500) = [] \<and>
   chunkText (of_ascii ''a b '') 2 = [of_ascii ''a b'', []]"
proof -
  have "chunkText text1000_trailing 500 =
        map (join [SP]) [replicate 500 (of_ascii ''w''), replicate 500 (of_ascii ''w''), [[]]]"
    by (simp only: chunkText_groups split_ws_text1000_trailing chunk_groups_text1000_trailing)
  moreover have "length (words_of text1000_trailing) = 1000"
    by (simp add: words_of_def split_ws_text1000_trailing of_ascii_def)
  moreover have "chunkText (of_ascii ''a b '') 2 = [of_ascii ''a b'', []]"
    by (simp add: chunkText_def split_ws_def of_ascii_def isWhiteSpace_def SP_def)
  ultimately show ?thesis by simp
qed

text \<open>
  C8. For every text and every maximum size, the words of the chunks of \<open>chunkText\<close>,
  each chunk split on white space as the text is, concatenated in the order of the
  chunks, are the word sequence of the text: no word is lost, duplicated or moved.
\<close>

theorem chunkText_words_roundtrip:
  "concat (map split_ws (chunkText s M)) = split_ws s"
proof -
  let ?G = "chunk_groups M (split_ws s)"
  have "split_ws (join [SP] g) = g" if g: "g \<in> set ?G" for g
  proof -
    from g obtain G1 G2 where "?G = G1 @ g # G2" by (auto dest: split_list)
    then have "concat ?G = concat G1 @ g @ concat G2" by simp
    then have sub: "split_ws s = concat G1 @ g @ concat G2" by (simp add: concat_chunk_groups)
    have "set g \<subseteq> set (split_ws s)" by (subst sub) auto
    then have nows: "\<forall>t\<in>set g. \<forall>c\<in>set t. \<not> isWhiteSpace c"
      using split_ws_no_ws [of s] by blast
    have "set (butlast (tl g)) \<subseteq> set (butlast (tl (split_ws s)))"
      by (subst sub) (rule inner_sublist)
    then have inner: "\<forall>u\<in>set (butlast (tl g)). u \<noteq> []"
      using split_ws_inner [of s] by blast
    from g have "g \<noteq> []" using chunk_groups_nonempty by blast
    then show ?thesis using nows inner by (rule split_ws_join)
  qed
  then have "map split_ws (map (join [SP]) ?G) = ?G"
    by (simp add: map_idI)
  then show ?thesis by (simp add: chunkText_groups concat_chunk_groups)
qed

text \<open>
  The round trip at the text \<open>a b c\<close> with the maximum 2.
\<close>

theorem chunkText_words_roundtrip_witness:
  "concat (map split_ws (chunkText (of_ascii ''a b c'') 2)) =
     [of_ascii ''a'', of_ascii ''b'', of_ascii ''c'']"
proof -
  have "split_ws (of_ascii ''a b c'') = [of_ascii ''a'', of_ascii ''b'', of_ascii ''c'']"
    by (simp add: split_ws_def of_ascii_def isWhiteSpace_def)
  with chunkText_words_roundtrip [of "of_ascii ''a b c''" 2] show ?thesis by simp
qed

section \<open>Properties of the embedding loop\<close>

lemma embed_loop_Cons:
  "embed_loop api d i (c # cs) acc =
     (case embed_vector (api i c) of
        None \<Rightarrow> embed_loop api d (Suc i) cs acc
      | Some v \<Rightarrow> embed_loop api d (Suc i) cs
          (acc @ [\<lparr>document_id = d, content = c, embedding = v, chunk_index = length acc\<rparr>]))"
  by (simp split: embed_outcome.splits option.splits)

lemma embed_loop_append:
  "embed_loop api d i (xs @ ys) acc = embed_loop api d (i + length xs) ys (embed_loop api d i xs acc)"
proof (induction xs arbitrary: i acc)
  case Nil
  show ?case by simp
next
  case (Cons x xs)
  show ?case
    by (cases "embed_vector (api i x)") (simp_all add: embed_loop_Cons Cons.IH del: embed_loop.simps)
qed

text \<open>
  The loop only appends: the records it starts with stay a prefix of its result.
\<close>

lemma embed_loop_prefix:
  "length acc \<le> length (embed_loop api d i cs acc) \<and>
   take (length acc) (embed_loop api d i cs acc) = acc"
proof (induction cs arbitrary: i acc)
  case Nil
  show ?case by simp
next
  case (Cons c cs)
  show ?case
  proof (cases "embed_vector (api i c)")
    case None
    with Cons.IH [of acc "Suc i"] show ?thesis by (simp only: embed_loop_Cons option.case)
  next
    case (Some v)
    let ?acc' = "acc @ [\<lparr>document_id = d, content = c, embedding = v, chunk_index = length acc\<rparr>]"
    from Cons.IH [of ?acc' "Suc i"]
    have l: "length ?acc' \<le> length (embed_loop api d (Suc i) cs ?acc')"
      and t: "take (length ?acc') (embed_loop api d (Suc i) cs ?acc') = ?acc'" by simp_all
    from l have "length acc \<le> length (embed_loop api d (Suc i) cs ?acc')" by simp
    moreover have "take (length acc) (embed_loop api d (Suc i) cs ?acc') = acc"
    proof -
      have "take (length acc) (take (length ?acc') (embed_loop api d (Suc i) cs ?acc')) = take (length acc) ?acc'"
        by (simp only: t)
      then show ?thesis by (simp add: min_def)
    qed
    ultimately show ?thesis using Some by (simp only: embed_loop_Cons option.case)
  qed
qed

lemma embed_loop_indices:
  "map chunk_index acc = [0..<length acc] \<Longrightarrow>
   map chunk_index (embed_loop api d i cs acc) = [0..<length (embed_loop api d i cs acc)]"
proof (induction cs arbitrary: i acc)
  case Nil
  then show ?case by simp
next
  case (Cons c cs)
  show ?case
  proof (cases "embed_vector (api i c)")
    case None
    with Cons.IH [OF Cons.prems, of "Suc i"] show ?thesis by (simp only: embed_loop_Cons option.case)
  next
    case (Some v)
    let ?acc' = "acc @ [\<lparr>document_id = d, content = c, embedding = v, chunk_index = length acc\<rparr>]"
    have "map chunk_index ?acc' = [0..<length ?acc']" using Cons.prems by simp
    from Cons.IH [OF this, of "Suc i"] Some show ?thesis by (simp only: embed_loop_Cons option.case)
  qed
qed

text \<open>
  The number of records grows by the number of chunks whose call gives a vector.
\<close>

lemma embed_loop_length:
  "length (embed_loop api d i cs acc) =
   length acc + length (filter (\<lambda>(p, c). embed_vector (api p c) \<noteq> None) (zip [i..<i + length cs] cs))"
proof (induction cs arbitrary: i acc)
  case Nil
  show ?case by simp
next
  case (Cons c cs)
  have z: "zip [i..<i + length (c # cs)] (c # cs) = (i, c) # zip [Suc i..<Suc i + length cs] cs"
    by (simp add: upt_conv_Cons del: upt_Suc)
  show ?case
    by (cases "embed_vector (api i c)") (simp_all only: embed_loop_Cons option.case Cons.IH z, simp_all)
qed

lemma embed_loop_le:
  "length (embed_loop api d i cs acc) \<le> length acc + length cs"
proof -
  have "length (filter (\<lambda>(p, c). embed_vector (api p c) \<noteq> None) (zip [i..<i + length cs] cs))
        \<le> length (zip [i..<i + length cs] cs)"
    by (rule length_filter_le)
  then show ?thesis by (simp add: embed_loop_length)
qed

lemma embed_loop_less:
  assumes "q < length cs" and "embed_vector (api (i + q) (cs ! q)) = None"
  shows "length (embed_loop api d i cs acc) < length acc + length cs"
proof -
  let ?P = "\<lambda>(p, c). embed_vector (api p c) \<noteq> None"
  let ?z = "zip [i..<i + length cs] cs"
  have "?z ! q = (i + q, cs ! q)" using assms(1) by simp
  moreover have "q < length ?z" using assms(1) by simp
  ultimately have "(i + q, cs ! q) \<in> set ?z" by (metis nth_mem)
  moreover have "\<not> ?P (i + q, cs ! q)" using assms(2) by simp
  ultimately have "length (filter ?P ?z) < length ?z"
    by (metis (no_types, lifting) length_filter_less)
  then show ?thesis by (simp add: embed_loop_length)
qed

lemma embed_loop_none:
  assumes "\<forall>p<length cs. embed_vector (api (i + p) (cs ! p)) = None"
  shows "embed_loop api d i cs acc = acc"
  using assms
proof (induction cs arbitrary: i)
  case Nil
  show ?case by simp
next
  case (Cons c cs)
  from Cons.prems have "embed_vector (api i c) = None" by force
  moreover have "\<forall>p<length cs. embed_vector (api (Suc i + p) (cs ! p)) = None"
    using Cons.prems by force
  ultimately show ?case using Cons.IH [of "Suc i"] by (simp only: embed_loop_Cons option.case)
qed

lemma embed_loop_all:
  assumes "\<forall>p<length cs. embed_vector (api (i + p) (cs ! p)) \<noteq> None"
  shows "map content (embed_loop api d i cs acc) = map content acc @ cs \<and>
         map document_id (embed_loop api d i cs acc) = map document_id acc @ replicate (length cs) d"
  using assms
proof (induction cs arbitrary: i acc)
  case Nil
  show ?case by simp
next
  case (Cons c cs)
  from Cons.prems obtain v where v: "embed_vector (api i c) = Some v" by force
  have "\<forall>p<length cs. embed_vector (api (Suc i + p) (cs ! p)) \<noteq> None"
    using Cons.prems by force
  from Cons.IH [OF this] v show ?case
    by (simp only: embed_loop_Cons option.case) (simp add: replicate_app_Cons_same)
qed

text \<open>
  C9. The stored \<open>chunk_index\<close> of a record is the number of records pushed before it.
  So the stored indices of a run are \<open>0, \<dots>, k - 1\<close> for the \<open>k\<close> chunks that were
  embedded, whichever chunks failed. For a chunk at position \<open>p\<close> whose call gives the
  vector \<open>v\<close>, the records \<open>before\<close> it are those of the chunks ahead of it; its
  record sits behind them and carries their number as index, which is at most \<open>p\<close> and
  strictly smaller than \<open>p\<close> when the call of an earlier chunk gave no vector.
\<close>

theorem chunk_index_is_embeddings_length:
  "map chunk_index (embed_loop api d 0 chunks []) = [0..<length (embed_loop api d 0 chunks [])] \<and>
   length (embed_loop api d 0 chunks []) =
     length (filter (\<lambda>(p, c). embed_vector (api p c) \<noteq> None) (zip [0..<length chunks] chunks)) \<and>
   (\<forall>p v. p < length chunks \<and> embed_vector (api p (chunks ! p)) = Some v \<longrightarrow>
      (let before = embed_loop api d 0 (take p chunks) [] in
         take (length before) (embed_loop api d 0 chunks []) = before \<and>
         length before < length (embed_loop api d 0 chunks []) \<and>
         embed_loop api d 0 chunks [] ! length before =
           \<lparr>document_id = d, content = chunks ! p, embedding = v, chunk_index = length before\<rparr> \<and>
         length before \<le> p \<and>
         ((\<exists>q<p. embed_vector (api q (chunks ! q)) = None) \<longrightarrow> length before < p)))"
proof (intro conjI allI impI)
  show "map chunk_index (embed_loop api d 0 chunks []) = [0..<length (embed_loop api d 0 chunks [])]"
    by (rule embed_loop_indices) simp
next
  show "length (embed_loop api d 0 chunks []) =
     length (filter (\<lambda>(p, c). embed_vector (api p c) \<noteq> None) (zip [0..<length chunks] chunks))"
    using embed_loop_length [of api d 0 chunks "[]"] by simp
next
  fix p v
  assume pv: "p < length chunks \<and> embed_vector (api p (chunks ! p)) = Some v"
  define before where "before = embed_loop api d 0 (take p chunks) []"
  define row where "row = \<lparr>document_id = d, content = chunks ! p, embedding = v, chunk_index = length before\<rparr>"
  from pv have split: "chunks = take p chunks @ chunks ! p # drop (Suc p) chunks"
    by (simp add: id_take_nth_drop)
  have lp: "length (take p chunks) = p" using pv by simp
  have "embed_loop api d 0 chunks [] = embed_loop api d (0 + length (take p chunks)) (chunks ! p # drop (Suc p) chunks) before"
    unfolding before_def by (subst split, subst embed_loop_append) (rule refl)
  also have "\<dots> = embed_loop api d (Suc p) (drop (Suc p) chunks) (before @ [row])"
    using pv by (simp only: lp embed_loop_Cons option.case row_def add_0)
  finally have full: "embed_loop api d 0 chunks [] = embed_loop api d (Suc p) (drop (Suc p) chunks) (before @ [row])" .
  from embed_loop_prefix [of "before @ [row]" api d "Suc p" "drop (Suc p) chunks"] full
  have l: "length (before @ [row]) \<le> length (embed_loop api d 0 chunks [])"
   and t: "take (length (before @ [row])) (embed_loop api d 0 chunks []) = before @ [row]"
    by simp_all
  have t1: "take (length before) (embed_loop api d 0 chunks []) = before"
  proof -
    have "take (length before) (take (length (before @ [row])) (embed_loop api d 0 chunks [])) = take (length before) (before @ [row])"
      by (simp only: t)
    then show ?thesis by (simp add: min_def)
  qed
  have l1: "length before < length (embed_loop api d 0 chunks [])" using l by simp
  have n1: "embed_loop api d 0 chunks [] ! length before = row"
  proof -
    have "take (length (before @ [row])) (embed_loop api d 0 chunks []) ! length before = (before @ [row]) ! length before"
      by (simp only: t)
    then show ?thesis by simp
  qed
  have le: "length before \<le> p"
    using embed_loop_le [of api d 0 "take p chunks" "[]"] lp by (simp add: before_def)
  have lt: "length before < p" if "\<exists>q<p. embed_vector (api q (chunks ! q)) = None"
  proof -
    from that obtain q where q: "q < p" "embed_vector (api q (chunks ! q)) = None" by blast
    then have "q < length (take p chunks)" "embed_vector (api (0 + q) (take p chunks ! q)) = None"
      using lp by simp_all
    from embed_loop_less [of q "take p chunks" api 0 d "[]", OF this] lp
    show ?thesis by (simp add: before_def)
  qed
  show "let before = embed_loop api d 0 (take p chunks) [] in
         take (length before) (embed_loop api d 0 chunks []) = before \<and>
         length before < length (embed_loop api d 0 chunks []) \<and>
         embed_loop api d 0 chunks [] ! length before =
           \<lparr>document_id = d, content = chunks ! p, embedding = v, chunk_index = length before\<rparr> \<and>
         length before \<le> p \<and>
         ((\<exists>q<p. embed_vector (api q (chunks ! q)) = None) \<longrightarrow> length before < p)"
    unfolding Let_def before_def [symmetric] row_def [symmetric]
    using t1 l1 n1 le lt by blast
qed

section \<open>Properties of ingestion\<close>

text \<open>
  A run that gets through the download, the document insert and the key look-up stores
  the document and hands the records of the loop to the batch insert.
\<close>

lemma process_file_main:
  assumes "\<not> method_is_options req" and "parsed req = Inr b"
      and "download env (fileUrl b) = Inr fileData"
      and "document_insert env = Inr (docid, now)"
      and "GEMINI_API_KEY env = Some key" and "key \<noteq> []"
  shows "process_file env req w =
         store_embeddings env docid
           (embed_loop (embedContent env) docid 0 (chunkText (extract_text (fileType b) fileData) 500) [])
           (w\<lparr>documents := documents w @
                  [\<lparr>doc_id = docid, doc_name = fileName b, doc_type = fileType b,
                    doc_content = extract_text (fileType b) fileData,
                    doc_originalUrl = fileUrl b, created_at = now\<rparr>],
               calls := calls w @
                  [StorageDownload (fileUrl b),
                   InsertDocument (fileName b) (fileType b) (extract_text (fileType b) fileData) (fileUrl b)] @
                  map EmbedContent (chunkText (extract_text (fileType b) fileData) 500)\<rparr>)"
  using assms by (simp add: process_file_def store_document_def embed_document_def Let_def)

lemma hd_replicate_text:
  "\<not> isWhiteSpace c \<Longrightarrow> dropWhile isWhiteSpace (concat (replicate n [c, SP]) @ [c]) = concat (replicate n [c, SP]) @ [c]"
  by (cases n) simp_all

lemma splitter_replicate:
  "\<not> isWhiteSpace c \<Longrightarrow> splitter [] (concat (replicate n [c, SP]) @ [c]) = replicate (Suc n) [c]"
proof (induction n)
  case 0
  then show ?case by simp
next
  case (Suc n)
  let ?rest = "concat (replicate n [c, SP]) @ [c]"
  have "splitter [] (concat (replicate (Suc n) [c, SP]) @ [c]) = splitter [] (c # SP # ?rest)"
    by simp
  also have "\<dots> = [c] # splitter [] (dropWhile isWhiteSpace ?rest)"
    using Suc.prems by (simp add: isWhiteSpace_SP)
  also have "\<dots> = [c] # replicate (Suc n) [c]"
    using Suc.IH [OF Suc.prems] hd_replicate_text [OF Suc.prems, of n] by simp
  finally show ?case by simp
qed

lemma split_ws_text1200: "split_ws text1200 = replicate 1200 (of_ascii ''w'')"
proof -
  have "\<not> isWhiteSpace 119" by (simp add: isWhiteSpace_def)
  from splitter_replicate [OF this, of 1199] show ?thesis
    by (simp add: text1200_def split_ws_def of_ascii_def SP_def)
qed

lemma length_split_text1200: "length (split_ws text1200) = 1200"
  by (simp add: split_ws_text1200)

lemma words_of_text1200: "length (words_of text1200) = 1200"
  by (simp add: words_of_def split_ws_text1200 of_ascii_def)

lemma length_chunkText_text1200: "length (chunkText text1200 500) = 3"
  by (simp add: length_chunkText length_split_text1200)

lemma key_not_empty: "of_ascii ''key'' \<noteq> []"
  by (simp add: of_ascii_def)

lemmas sample_defs = sample_env_def sample_request_def sample_body_def empty_world_def
  embeds_all_def embeds_none_def second_fails_def

text \<open>
  The index of the third of three chunks, where the call of the second fails, is 1.
\<close>

theorem chunk_index_is_embeddings_length_witness:
  "embed_loop (embedContent (sample_env [] second_fails True)) 7 0 chunks3 [] ! 1 =
     \<lparr>document_id = 7, content = of_ascii ''c'', embedding = [2], chunk_index = 1\<rparr> \<and>
   map chunk_index (embed_loop (embedContent (sample_env [] second_fails True)) 7 0 chunks3 []) = [0, 1]"
proof -
  let ?api = "embedContent (sample_env [] second_fails True)"
  have before: "embed_loop ?api 7 0 (take 2 chunks3) [] =
      [\<lparr>document_id = 7, content = of_ascii ''a'', embedding = [0], chunk_index = 0\<rparr>]"
    by (simp add: chunks3_def sample_defs)
  have p: "2 < length chunks3 \<and> embed_vector (?api 2 (chunks3 ! 2)) = Some [2]"
    by (simp add: chunks3_def sample_defs)
  have l: "length (embed_loop ?api 7 0 chunks3 []) = 2"
    by (simp add: chunks3_def sample_defs)
  from chunk_index_is_embeddings_length [of ?api 7 chunks3]
  have a: "map chunk_index (embed_loop ?api 7 0 chunks3 []) = [0..<length (embed_loop ?api 7 0 chunks3 [])]"
   and b: "\<forall>p v. p < length chunks3 \<and> embed_vector (?api p (chunks3 ! p)) = Some v \<longrightarrow>
      (let before = embed_loop ?api 7 0 (take p chunks3) [] in
         take (length before) (embed_loop ?api 7 0 chunks3 []) = before \<and>
         length before < length (embed_loop ?api 7 0 chunks3 []) \<and>
         embed_loop ?api 7 0 chunks3 [] ! length before =
           \<lparr>document_id = 7, content = chunks3 ! p, embedding = v, chunk_index = length before\<rparr> \<and>
         length before \<le> p \<and>
         ((\<exists>q<p. embed_vector (?api q (chunks3 ! q)) = None) \<longrightarrow> length before < p))"
    by blast+
  from b [rule_format, OF p] have "embed_loop ?api 7 0 chunks3 [] ! 1 =
           \<lparr>document_id = 7, content = chunks3 ! 2, embedding = [2], chunk_index = 1\<rparr>"
    by (simp add: before Let_def)
  moreover from a l have "map chunk_index (embed_loop ?api 7 0 chunks3 []) = [0, 1]"
    by (simp add: upt_rec)
  ultimately show ?thesis by (simp add: chunks3_def)
qed

text \<open>
  C1. A request with the declared type \<open>application/pdf\<close> is not rejected: the bytes
  of the file are read as text, a document row with that text is stored, the text is
  chunked and embedded, and the run reports success. A request with a declared type
  for which the handler has no branch (here that of an \<open>xlsx\<close> sheet) is not rejected
  either: a document row with the empty text is stored.
\<close>

theorem pdf_is_stored_as_text:
  "fst (process_file (sample_env pdf_blob embeds_all True) (sample_request (of_ascii ''application/pdf'')) empty_world)
     = Success 7 1 \<and>
   map doc_content (documents (snd (process_file (sample_env pdf_blob embeds_all True)
      (sample_request (of_ascii ''application/pdf'')) empty_world))) = [pdf_blob] \<and>
   map content (embeddings (snd (process_file (sample_env pdf_blob embeds_all True)
      (sample_request (of_ascii ''application/pdf'')) empty_world))) = [of_ascii ''%PDF-1.4 obj''] \<and>
   fst (process_file (sample_env pdf_blob embeds_all True)
      (sample_request (of_ascii ''application/vnd.openxmlformats-officedocument.spreadsheetml.sheet'')) empty_world)
     = Success 7 1 \<and>
   map doc_content (documents (snd (process_file (sample_env pdf_blob embeds_all True)
      (sample_request (of_ascii ''application/vnd.openxmlformats-officedocument.spreadsheetml.sheet'')) empty_world))) = [[]]"
  by (simp add: process_file_def store_document_def embed_document_def store_embeddings_def
      extract_text_def chunkText_def split_ws_def sample_env_def sample_request_def sample_body_def
      empty_world_def embeds_all_def pdf_blob_def of_ascii_def isWhiteSpace_def SP_def Let_def)

text \<open>
  C3, as stated: a run whose batch insert of the embeddings fails returns the error and
  leaves the document row in the store.
\<close>

theorem failed_batch_keeps_document:
  "fst (process_file (sample_env (of_ascii ''a b'') embeds_all False) (sample_request (of_ascii ''text/csv'')) empty_world)
     = Failure (StoreEmbeddingsFailed (of_ascii ''insert failed'')) \<and>
   documents (snd (process_file (sample_env (of_ascii ''a b'') embeds_all False)
      (sample_request (of_ascii ''text/csv'')) empty_world)) =
     [\<lparr>doc_id = 7, doc_name = of_ascii ''data'', doc_type = of_ascii ''text/csv'',
       doc_content = of_ascii ''a b'', doc_originalUrl = of_ascii ''1-data'', created_at = 100\<rparr>]"
  by (simp add: process_file_def store_document_def embed_document_def store_embeddings_def
      extract_text_def chunkText_def split_ws_def sample_env_def sample_request_def sample_body_def
      empty_world_def embeds_all_def of_ascii_def isWhiteSpace_def SP_def Let_def)

text \<open>
  C3, amended. A run that ends in an error stores no embedding row. If the error is
  raised before the document insert has succeeded (a thrown exception, the download, the
  insert itself), the documents are unchanged; if it is raised after it (the missing
  key, the failed batch insert), the new document row stays in the store: nothing removes
  it.
\<close>

theorem failed_run_state:
  assumes "fst (process_file env req w) = Failure e"
  shows "embeddings (snd (process_file env req w)) = embeddings w \<and>
         (if after_document_insert e
          then \<exists>d. documents (snd (process_file env req w)) = documents w @ [d]
          else documents (snd (process_file env req w)) = documents w)"
  using assms
  by (auto simp: process_file_def store_document_def embed_document_def store_embeddings_def Let_def
      split: sum.splits option.splits if_splits prod.splits)

text \<open>
  The failed batch insert of the run above: no embedding row, one document row.
\<close>

theorem failed_run_state_witness:
  "embeddings (snd (process_file (sample_env (of_ascii ''a b'') embeds_all False)
      (sample_request (of_ascii ''text/csv'')) empty_world)) = [] \<and>
   length (documents (snd (process_file (sample_env (of_ascii ''a b'') embeds_all False)
      (sample_request (of_ascii ''text/csv'')) empty_world))) = 1"
proof -
  have f: "fst (process_file (sample_env (of_ascii ''a b'') embeds_all False) (sample_request (of_ascii ''text/csv'')) empty_world)
     = Failure (StoreEmbeddingsFailed (of_ascii ''insert failed''))"
  by (simp add: process_file_def store_document_def embed_document_def store_embeddings_def
      extract_text_def chunkText_def split_ws_def sample_env_def sample_request_def sample_body_def
      empty_world_def embeds_all_def of_ascii_def isWhiteSpace_def SP_def Let_def)
  from failed_run_state [OF f] show ?thesis by (auto simp add: empty_world_def)
qed

text \<open>
  C5. In a run with three chunks in which the call for exactly one chunk \<open>k\<close> gives no
  vector and everything else succeeds, the response is the success with
  \<open>chunksProcessed = 2\<close>; the two other chunks are stored, in their order, with the
  indices 0 and 1, and the document row is stored.
\<close>

theorem one_of_three_fails:
  assumes "\<not> method_is_options req" and "parsed req = Inr b"
      and "download env (fileUrl b) = Inr fileData"
      and "document_insert env = Inr (docid, now)"
      and "GEMINI_API_KEY env = Some key" and "key \<noteq> []"
      and "length (chunkText (extract_text (fileType b) fileData) 500) = 3"
      and "k < 3"
      and "embed_vector (embedContent env k (chunkText (extract_text (fileType b) fileData) 500 ! k)) = None"
      and "\<forall>p<3. p \<noteq> k \<longrightarrow>
             embed_vector (embedContent env p (chunkText (extract_text (fileType b) fileData) 500 ! p)) \<noteq> None"
      and "\<forall>rows. embeddings_insert env rows = None"
  shows "fst (process_file env req w) = Success docid 2 \<and>
         (\<exists>rows. embeddings (snd (process_file env req w)) = embeddings w @ rows \<and>
            map chunk_index rows = [0, 1] \<and>
            map document_id rows = [docid, docid] \<and>
            map content rows = take k (chunkText (extract_text (fileType b) fileData) 500) @
                               drop (Suc k) (chunkText (extract_text (fileType b) fileData) 500)) \<and>
         documents (snd (process_file env req w)) =
           documents w @ [\<lparr>doc_id = docid, doc_name = fileName b, doc_type = fileType b,
                    doc_content = extract_text (fileType b) fileData,
                    doc_originalUrl = fileUrl b, created_at = now\<rparr>]"
proof -
  let ?chunks = "chunkText (extract_text (fileType b) fileData) 500"
  from assms(7) obtain c0 c1 c2 where cs: "?chunks = [c0, c1, c2]"
    by (auto simp: numeral_3_eq_3 length_Suc_conv)
  have e0: "k \<noteq> 0 \<Longrightarrow> \<exists>v. embed_vector (embedContent env 0 c0) = Some v"
    using assms(10) [rule_format, of 0] cs by auto
  have e1: "k \<noteq> 1 \<Longrightarrow> \<exists>v. embed_vector (embedContent env (Suc 0) c1) = Some v"
    using assms(10) [rule_format, of "Suc 0"] cs by auto
  have e2: "k \<noteq> 2 \<Longrightarrow> \<exists>v. embed_vector (embedContent env (Suc (Suc 0)) c2) = Some v"
    using assms(10) [rule_format, of "Suc (Suc 0)"] cs by auto
  from assms(8) consider "k = 0" | "k = 1" | "k = 2" by linarith
  then show ?thesis
  proof cases
    case 1
    from e1 e2 1 obtain v1 v2 where
      "embed_vector (embedContent env (Suc 0) c1) = Some v1"
      "embed_vector (embedContent env (Suc (Suc 0)) c2) = Some v2"
      by auto
    moreover from assms(9) cs 1 have "embed_vector (embedContent env 0 c0) = None" by simp
    ultimately show ?thesis
      using assms(11) 1
      by (simp add: process_file_main [OF assms(1-6)] cs store_embeddings_def embed_loop_Cons
          del: embed_loop.simps(2))
  next
    case 2
    from e0 e2 2 obtain v0 v2 where
      "embed_vector (embedContent env 0 c0) = Some v0"
      "embed_vector (embedContent env (Suc (Suc 0)) c2) = Some v2"
      by auto
    moreover from assms(9) cs 2 have "embed_vector (embedContent env (Suc 0) c1) = None" by simp
    ultimately show ?thesis
      using assms(11) 2
      by (simp add: process_file_main [OF assms(1-6)] cs store_embeddings_def embed_loop_Cons
          del: embed_loop.simps(2))
  next
    case 3
    from e0 e1 3 obtain v0 v1 where
      "embed_vector (embedContent env 0 c0) = Some v0"
      "embed_vector (embedContent env (Suc 0) c1) = Some v1"
      by auto
    moreover from assms(9) cs 3 have "embed_vector (embedContent env (Suc (Suc 0)) c2) = None"
      by (simp add: numeral_2_eq_2)
    ultimately show ?thesis
      using assms(11) 3
      by (simp add: process_file_main [OF assms(1-6)] cs store_embeddings_def embed_loop_Cons
          del: embed_loop.simps(2))
  qed
qed

text \<open>
  The run on the text of 1200 words in which the second call fails.
\<close>

theorem one_of_three_fails_witness:
  "length (chunkText text1200 500) = 3 \<and>
   fst (process_file (sample_env text1200 second_fails True) (sample_request (of_ascii ''text/csv'')) empty_world)
     = Success 7 2 \<and>
   map chunk_index (embeddings (snd (process_file (sample_env text1200 second_fails True)
      (sample_request (of_ascii ''text/csv'')) empty_world))) = [0, 1]"
proof -
  have t: "extract_text (of_ascii ''text/csv'') text1200 = text1200"
    by (simp add: extract_text_def)
  have "fst (process_file (sample_env text1200 second_fails True) (sample_request (of_ascii ''text/csv'')) empty_world) = Success 7 2 \<and>
         (\<exists>rows. embeddings (snd (process_file (sample_env text1200 second_fails True) (sample_request (of_ascii ''text/csv'')) empty_world)) = embeddings empty_world @ rows \<and>
            map chunk_index rows = [0, 1] \<and>
            map document_id rows = [7, 7] \<and>
            map content rows = take 1 (chunkText (extract_text (fileType (sample_body (of_ascii ''text/csv''))) text1200) 500) @
                               drop (Suc 1) (chunkText (extract_text (fileType (sample_body (of_ascii ''text/csv''))) text1200) 500)) \<and>
         documents (snd (process_file (sample_env text1200 second_fails True) (sample_request (of_ascii ''text/csv'')) empty_world)) =
           documents empty_world @ [\<lparr>doc_id = 7, doc_name = fileName (sample_body (of_ascii ''text/csv'')), doc_type = fileType (sample_body (of_ascii ''text/csv'')),
                    doc_content = extract_text (fileType (sample_body (of_ascii ''text/csv''))) text1200,
                    doc_originalUrl = fileUrl (sample_body (of_ascii ''text/csv'')), created_at = 100\<rparr>]"
    by (rule one_of_three_fails [where key = "of_ascii ''key''"])
       (simp_all add: sample_defs t length_chunkText_text1200 key_not_empty)
  then show ?thesis by (auto simp add: length_chunkText_text1200 empty_world_def)
qed

text \<open>
  C6, as stated: for a file of 1200 words with the declared type \<open>text/plain\<close> the
  handler has no branch; the text stays empty, and one record, for the empty chunk, is
  stored.
\<close>

theorem plain_text_type_is_not_read:
  "length (words_of text1200) = 1200 \<and>
   fst (process_file (sample_env text1200 embeds_all True) (sample_request (of_ascii ''text/plain'')) empty_world)
     = Success 7 1 \<and>
   map chunk_index (embeddings (snd (process_file (sample_env text1200 embeds_all True)
     (sample_request (of_ascii ''text/plain'')) empty_world))) = [0] \<and>
   map content (embeddings (snd (process_file (sample_env text1200 embeds_all True)
     (sample_request (of_ascii ''text/plain'')) empty_world))) = [[]]"
  by (simp add: words_of_text1200 process_file_def store_document_def embed_document_def
      store_embeddings_def extract_text_def chunkText_empty sample_defs of_ascii_def Let_def)

text \<open>
  C6, amended. For a file of 1200 words (counted as the pieces of the split, or as those
  that are not empty) with the declared type \<open>text/csv\<close> or
  \<open>application/vnd.ms-excel\<close>, in a run in which every embedding call gives a vector
  and everything else succeeds, exactly three records are stored for the document; they
  carry the indices 0, 1 and 2 and the three chunks of the text, and the response reports
  \<open>chunksProcessed = 3\<close>.
\<close>

theorem csv_of_1200_words:
  assumes "\<not> method_is_options req" and "parsed req = Inr b"
      and "download env (fileUrl b) = Inr fileData"
      and "document_insert env = Inr (docid, now)"
      and "GEMINI_API_KEY env = Some key" and "key \<noteq> []"
      and "fileType b = of_ascii ''text/csv'' \<or> fileType b = of_ascii ''application/vnd.ms-excel''"
      and "length (words_of fileData) = 1200 \<or> length (split_ws fileData) = 1200"
      and "\<forall>i chunk. embed_vector (embedContent env i chunk) \<noteq> None"
      and "\<forall>rows. embeddings_insert env rows = None"
  shows "fst (process_file env req w) = Success docid 3 \<and>
         (\<exists>rows. embeddings (snd (process_file env req w)) = embeddings w @ rows \<and>
            length rows = 3 \<and>
            map chunk_index rows = [0, 1, 2] \<and>
            map document_id rows = [docid, docid, docid] \<and>
            map content rows = chunkText fileData 500)"
proof -
  let ?rows = "embed_loop (embedContent env) docid 0 (chunkText fileData 500) []"
  have ext: "extract_text (fileType b) fileData = fileData"
    using assms(7) by (auto simp: extract_text_def)
  have "1200 \<le> length (split_ws fileData) \<and> length (split_ws fileData) \<le> 1202"
    using assms(8) length_split_ws_words [of fileData] by auto
  then have "(length (split_ws fileData) + 500 - 1) div 500 = 3" by linarith
  then have three: "length (chunkText fileData 500) = 3" by (simp add: length_chunkText)
  have "\<forall>p<length (chunkText fileData 500). embed_vector (embedContent env (0 + p) (chunkText fileData 500 ! p)) \<noteq> None"
    using assms(9) by blast
  from embed_loop_all [OF this, of docid "[]"]
  have c: "map content ?rows = chunkText fileData 500"
   and d: "map document_id ?rows = replicate (length (chunkText fileData 500)) docid"
    by simp_all
  from c have l: "length ?rows = 3" using three by (metis length_map)
  have "map chunk_index ?rows = [0..<length ?rows]" by (rule embed_loop_indices) simp
  with l have i: "map chunk_index ?rows = [0, 1, 2]" by (simp add: upt_rec)
  from d three have d': "map document_id ?rows = [docid, docid, docid]"
    by (simp add: numeral_3_eq_3)
  have "process_file env req w =
        (Success docid 3,
         (w\<lparr>documents := documents w @
                  [\<lparr>doc_id = docid, doc_name = fileName b, doc_type = fileType b,
                    doc_content = fileData, doc_originalUrl = fileUrl b, created_at = now\<rparr>],
            calls := calls w @
                  [StorageDownload (fileUrl b), InsertDocument (fileName b) (fileType b) fileData (fileUrl b)] @
                  map EmbedContent (chunkText fileData 500) @ [InsertEmbeddings ?rows],
            embeddings := embeddings w @ ?rows\<rparr>))"
    using l assms(10) by (simp add: process_file_main [OF assms(1-6)] ext store_embeddings_def Let_def)
  with l i d' c show ?thesis by simp
qed

text \<open>
  The run on the text of 1200 words with the declared type \<open>text/csv\<close>.
\<close>

theorem csv_of_1200_words_witness:
  "length (words_of text1200) = 1200 \<and>
   fst (process_file (sample_env text1200 embeds_all True) (sample_request (of_ascii ''text/csv'')) empty_world)
     = Success 7 3 \<and>
   map chunk_index (embeddings (snd (process_file (sample_env text1200 embeds_all True)
      (sample_request (of_ascii ''text/csv'')) empty_world))) = [0, 1, 2]"
proof -
  have "fst (process_file (sample_env text1200 embeds_all True) (sample_request (of_ascii ''text/csv'')) empty_world) = Success 7 3 \<and>
         (\<exists>rows. embeddings (snd (process_file (sample_env text1200 embeds_all True) (sample_request (of_ascii ''text/csv'')) empty_world)) = embeddings empty_world @ rows \<and>
            length rows = 3 \<and>
            map chunk_index rows = [0, 1, 2] \<and>
            map document_id rows = [7, 7, 7] \<and>
            map content rows = chunkText text1200 500)"
    by (rule csv_of_1200_words [where b = "sample_body (of_ascii ''text/csv'')" and now = 100
          and key = "of_ascii ''key''"])
       (simp_all add: sample_defs words_of_text1200 key_not_empty)
  then show ?thesis by (auto simp add: words_of_text1200 empty_world_def)
qed

text \<open>
  C10. In a run that gets through the download, the document insert and the key look-up
  and in which no embedding call gives a vector, the calls made are the download, the
  document insert and one embedding call per chunk: no batch insert of embeddings is
  attempted, whatever it would have answered. The document row is stored, no embedding
  row is, and the response is the success with \<open>chunksProcessed = 0\<close>.
\<close>

theorem no_vectors_no_insert:
  assumes "\<not> method_is_options req" and "parsed req = Inr b"
      and "download env (fileUrl b) = Inr fileData"
      and "document_insert env = Inr (docid, now)"
      and "GEMINI_API_KEY env = Some key" and "key \<noteq> []"
      and "\<forall>p<length (chunkText (extract_text (fileType b) fileData) 500).
             embed_vector (embedContent env p (chunkText (extract_text (fileType b) fileData) 500 ! p)) = None"
  shows "fst (process_file env req w) = Success docid 0 \<and>
         calls (snd (process_file env req w)) =
           calls w @ [StorageDownload (fileUrl b),
                      InsertDocument (fileName b) (fileType b) (extract_text (fileType b) fileData) (fileUrl b)] @
                     map EmbedContent (chunkText (extract_text (fileType b) fileData) 500) \<and>
         (\<forall>rows. InsertEmbeddings rows \<notin> set (calls (snd (process_file env req w))) - set (calls w)) \<and>
         documents (snd (process_file env req w)) =
           documents w @ [\<lparr>doc_id = docid, doc_name = fileName b, doc_type = fileType b,
                    doc_content = extract_text (fileType b) fileData,
                    doc_originalUrl = fileUrl b, created_at = now\<rparr>] \<and>
         embeddings (snd (process_file env req w)) = embeddings w"
proof -
  have "embed_loop (embedContent env) docid 0 (chunkText (extract_text (fileType b) fileData) 500) [] = []"
    by (rule embed_loop_none) (use assms(7) in simp)
  then show ?thesis
    by (auto simp add: process_file_main [OF assms(1-6)] store_embeddings_def)
qed

text \<open>
  The run on the text \<open>a b\<close> in which every embedding call is refused.
\<close>

theorem no_vectors_no_insert_witness:
  "fst (process_file (sample_env (of_ascii ''a b'') embeds_none True) (sample_request (of_ascii ''text/csv'')) empty_world)
     = Success 7 0 \<and>
   calls (snd (process_file (sample_env (of_ascii ''a b'') embeds_none True)
            (sample_request (of_ascii ''text/csv'')) empty_world)) =
     [StorageDownload (of_ascii ''1-data''),
      InsertDocument (of_ascii ''data'') (of_ascii ''text/csv'') (of_ascii ''a b'') (of_ascii ''1-data''),
      EmbedContent (of_ascii ''a b'')] \<and>
   length (documents (snd (process_file (sample_env (of_ascii ''a b'') embeds_none True)
            (sample_request (of_ascii ''text/csv'')) empty_world))) = 1"
proof -
  have c: "chunkText (of_ascii ''a b'') 500 = [of_ascii ''a b'']"
    by (simp add: chunkText_def split_ws_def of_ascii_def isWhiteSpace_def SP_def)
  have t: "extract_text (of_ascii ''text/csv'') (of_ascii ''a b'') = of_ascii ''a b''"
    by (simp add: extract_text_def)
  have h1: "\<not> method_is_options (sample_request (of_ascii ''text/csv''))"
   and h2: "parsed (sample_request (of_ascii ''text/csv'')) = Inr (sample_body (of_ascii ''text/csv''))"
   and h3: "download (sample_env (of_ascii ''a b'') embeds_none True) (fileUrl (sample_body (of_ascii ''text/csv''))) = Inr (of_ascii ''a b'')"
   and h4: "document_insert (sample_env (of_ascii ''a b'') embeds_none True) = Inr (7, 100)"
   and h5: "GEMINI_API_KEY (sample_env (of_ascii ''a b'') embeds_none True) = Some (of_ascii ''key'')"
   and h6: "of_ascii ''key'' \<noteq> []"
    by (simp_all add: sample_defs of_ascii_def)
  have h7: "\<forall>p<length (chunkText (extract_text (fileType (sample_body (of_ascii ''text/csv''))) (of_ascii ''a b'')) 500).
             embed_vector (embedContent (sample_env (of_ascii ''a b'') embeds_none True) p
               (chunkText (extract_text (fileType (sample_body (of_ascii ''text/csv''))) (of_ascii ''a b'')) 500 ! p)) = None"
    by (simp add: sample_defs)
  from no_vectors_no_insert [OF h1 h2 h3 h4 h5 h6 h7, of empty_world]
  show ?thesis by (simp add: sample_defs t c)
qed

section \<open>Properties of retrieval\<close>

text \<open>
  With a search error and a fallback query that answers, the context is made of the
  first three rows of \<open>documents\<close> in the order of the table.
\<close>

lemma fallback_context_rows:
  "\<not> select_documents_fails env \<Longrightarrow>
   relevant_context env (Inl searchError) w =
     (if documents w = [] then [] else join [NL, NL] (map doc_content (take 3 (documents w))))"
  by (simp add: relevant_context_def fallback_context_def select_content_limit_def)

text \<open>
  C4. The fallback query names no ordering. In a store whose four documents lie in the
  order of their creation, a query whose search fails is answered from the three oldest
  documents, \<open>first\<close>, \<open>second\<close> and \<open>third\<close>, while the three most recently
  created ones are \<open>fourth\<close>, \<open>third\<close> and \<open>second\<close>. (The generation endpoint of
  the sample run echoes its prompt, so the answer shows the context.)
\<close>

theorem fallback_takes_first_rows:
  "fst (query_rag search_down_env sample_question four_documents) =
     Answer (build_prompt (join [NL, NL] [of_ascii ''first'', of_ascii ''second'', of_ascii ''third''])
               (of_ascii ''why'')) \<and>
   spec_recent_documents 3 (documents four_documents) =
     [of_ascii ''fourth'', of_ascii ''third'', of_ascii ''second'']"
  by (simp add: query_rag_def search_and_answer_def generate_answer_def relevant_context_def
      fallback_context_def select_content_limit_def spec_recent_documents_def
      search_down_env_def sample_question_def four_documents_def of_ascii_def build_prompt_def Let_def)

end
